theory Spec2Isabelle
  imports Main
begin

section \<open>Values shared by server and client\<close>

text \<open>
  The GraphQL schema of the chat: \<^verbatim>\<open>type Message { id: ID!, user: String!, text: String! }\<close>.
  The identifier is a number here, since the message store hands out increasing
  identifiers and the properties below compare them.
\<close>

record message =
  msg_id :: nat
  msg_user :: string
  msg_text :: string

text \<open>
  The ways an operation can fail. \<open>AuthorizationError\<close> is what \<^verbatim>\<open>unauthorizedError()\<close>
  builds, \<open>StoreError\<close> is a rejected database call, \<open>TypeError\<close> is what JavaScript
  raises on reading a property of \<^verbatim>\<open>null\<close>/\<^verbatim>\<open>undefined\<close> or spreading a non-iterable.
  \<open>ValidationError\<close> is the error the design document names for an empty text; no
  function below produces it.
\<close>

datatype error = AuthorizationError | ValidationError | StoreError | TypeError

section \<open>Server: resolvers (server/resolvers.js)\<close>

subsection \<open>The request context\<close>

text \<open>
  The resolvers receive \<^verbatim>\<open>{ user }\<close> from the context: the name taken from the token, or
  \<^verbatim>\<open>undefined\<close> (\<open>None\<close>) for a request without one. The guard \<^verbatim>\<open>if (!user)\<close> tests
  JavaScript truthiness, so the empty string is rejected like \<^verbatim>\<open>undefined\<close>.
\<close>

fun truthy :: "string option \<Rightarrow> bool" where
  "truthy None = False"
| "truthy (Some u) = (u \<noteq> [])"

subsection \<open>The PubSub hub and its iterators\<close>

text \<open>
  Modelled from the spec: the in-process \<^verbatim>\<open>PubSub\<close> of graphql-subscriptions, which is
  not part of the sources. One topic (\<^verbatim>\<open>"MESSAGE_ADDED"\<close>); every iterator handed out by
  \<^verbatim>\<open>asyncIterableIterator\<close> is a subscription session owning a queue. \<open>pending\<close> is the
  queue, \<open>waiting\<close> the number of pulls suspended on the empty queue, \<open>delivered\<close> the
  messages the session has yielded so far (oldest first), and \<open>owner\<close> the principal
  of the connection the iterator was created for.
\<close>

record session =
  owner :: string
  delivered :: "message list"
  pending :: "message list"
  waiting :: nat

type_synonym pubsub = "session list"

text \<open>Everything a session's stream has yielded or will yield, in order.\<close>

definition stream :: "session \<Rightarrow> message list" where
  "stream ss = delivered ss @ pending ss"

text \<open>A message reaching a session: it resumes the oldest suspended pull, which yields
  it, or joins the end of the queue when no pull is suspended.\<close>

definition enqueue :: "message \<Rightarrow> session \<Rightarrow> session" where
  "enqueue m ss =
     (if 0 < waiting ss
      then ss\<lparr>delivered := delivered ss @ [m], waiting := waiting ss - 1\<rparr>
      else ss\<lparr>pending := pending ss @ [m]\<rparr>)"

text \<open>\<^verbatim>\<open>pubSub.publish("MESSAGE_ADDED", { messageAdded: m })\<close>: the message reaches every
  session registered at the moment of the call. \<open>resumed\<close> lists the sessions whose
  suspended pull a publish resumes.\<close>

definition publish :: "message \<Rightarrow> pubsub \<Rightarrow> pubsub" where
  "publish m ps = map (enqueue m) ps"

definition resumed :: "pubsub \<Rightarrow> nat list" where
  "resumed ps = filter (\<lambda>k. 0 < waiting (ps ! k)) [0..<length ps]"

text \<open>\<^verbatim>\<open>pubSub.asyncIterableIterator("MESSAGE_ADDED")\<close>: a new session with an empty queue is
  registered; the result names it by its position in the registry.\<close>

definition asyncIterableIterator :: "string \<Rightarrow> pubsub \<Rightarrow> nat \<times> pubsub" where
  "asyncIterableIterator u ps =
     (length ps, ps @ [\<lparr>owner = u, delivered = [], pending = [], waiting = 0\<rparr>])"

text \<open>The transport pulling the next message of session \<open>k\<close>: the head of the queue is
  yielded at once when there is one; on an empty queue the pull is suspended until a
  publish resumes it. A pull on an unknown session yields nothing and changes nothing.\<close>

definition nextMessage :: "nat \<Rightarrow> pubsub \<Rightarrow> message option \<times> pubsub" where
  "nextMessage k ps =
     (if k < length ps then
        (case pending (ps ! k) of
           [] \<Rightarrow> (None, ps[k := (ps ! k)\<lparr>waiting := Suc (waiting (ps ! k))\<rparr>])
         | m # ms \<Rightarrow>
             (Some m, ps[k := (ps ! k)\<lparr>delivered := delivered (ps ! k) @ [m], pending := ms\<rparr>]))
      else (None, ps))"

subsection \<open>The server state and the three resolvers\<close>

record 'st server =
  db :: 'st
  pubSub :: pubsub

text \<open>
  \<^verbatim>\<open>Query: { messages: (_r, _a, { user }) => { if (!user) throw unauthorizedError();
  return getMessages(); } }\<close>. The database read \<open>getMessages\<close> is a parameter.
\<close>

definition Query_messages ::
  "('st \<Rightarrow> error + message list) \<Rightarrow> string option \<Rightarrow> 'st server \<Rightarrow> error + message list" where
  "Query_messages getMessages user s =
     (if \<not> truthy user then Inl AuthorizationError else getMessages (db s))"

text \<open>
  \<^verbatim>\<open>Mutation: { addMessage: async (_r, { text }, { user }) => { if (!user) throw
  unauthorizedError(); const m = await createMessage(user, text);
  pubSub.publish("MESSAGE_ADDED", { messageAdded: m }); return m; } }\<close>.
  The database write \<open>createMessage\<close> is a parameter: it returns the created message or
  the error it rejects with, and the database it leaves behind. A rejected
  \<^verbatim>\<open>await\<close> leaves the resolver before \<^verbatim>\<open>publish\<close>. Past the guard the user is a
  non-empty name, which \<open>the user\<close> reads.
\<close>

fun Mutation_addMessage ::
  "(string \<Rightarrow> string \<Rightarrow> 'st \<Rightarrow> (error + message) \<times> 'st) \<Rightarrow>
   string option \<Rightarrow> string \<Rightarrow> 'st server \<Rightarrow> (error + message) \<times> 'st server" where
  "Mutation_addMessage createMessage user text s =
     (if \<not> truthy user then (Inl AuthorizationError, s)
      else
        (case createMessage (the user) text (db s) of
           (Inl e, d) \<Rightarrow> (Inl e, s\<lparr>db := d\<rparr>)
         | (Inr m, d) \<Rightarrow> (Inr m, s\<lparr>db := d, pubSub := publish m (pubSub s)\<rparr>)))"

text \<open>
  The two halves of the resolver, for runs in which other requests are served while it
  awaits the store: \<open>addMessage_start\<close> is the resolver up to the \<^verbatim>\<open>await\<close> (guard and
  database write), \<open>addMessage_resume\<close> the rest of it (publish and return).
\<close>

definition addMessage_start ::
  "(string \<Rightarrow> string \<Rightarrow> 'st \<Rightarrow> (error + message) \<times> 'st) \<Rightarrow>
   string option \<Rightarrow> string \<Rightarrow> 'st server \<Rightarrow> (error + message) \<times> 'st server" where
  "addMessage_start createMessage user text s =
     (if \<not> truthy user then (Inl AuthorizationError, s)
      else (case createMessage (the user) text (db s) of (r, d) \<Rightarrow> (r, s\<lparr>db := d\<rparr>)))"

definition addMessage_resume :: "message \<Rightarrow> 'st server \<Rightarrow> (error + message) \<times> 'st server" where
  "addMessage_resume m s = (Inr m, s\<lparr>pubSub := publish m (pubSub s)\<rparr>)"

text \<open>
  \<^verbatim>\<open>Subscription: { messageAdded: { subscribe: (_r, _a, { user }) => { if (!user) throw
  unauthorizedError(); return pubSub.asyncIterableIterator("MESSAGE_ADDED"); } } }\<close>.
\<close>

definition Subscription_messageAdded ::
  "string option \<Rightarrow> 'st server \<Rightarrow> (error + nat) \<times> 'st server" where
  "Subscription_messageAdded user s =
     (if \<not> truthy user then (Inl AuthorizationError, s)
      else
        (let (k, ps) = asyncIterableIterator (the user) (pubSub s)
         in (Inr k, s\<lparr>pubSub := ps\<rparr>)))"

subsection \<open>The message store\<close>

text \<open>
  Modelled from the spec: \<^verbatim>\<open>createMessage\<close> and \<^verbatim>\<open>getMessages\<close> of server/db/messages.js,
  which are not part of the sources. The store is an append-only log that assigns each
  message the next identifier; \<open>getMessages\<close> returns the log in creation order. Whether
  the database accepts a write is an input (\<open>ok\<close>): a refused write fails with
  \<open>StoreError\<close> and appends nothing.
\<close>

record store =
  rows :: "message list"
  next_id :: nat

definition createMessage :: "bool \<Rightarrow> string \<Rightarrow> string \<Rightarrow> store \<Rightarrow> (error + message) \<times> store" where
  "createMessage ok u t st =
     (if ok then
        (let m = \<lparr>msg_id = next_id st, msg_user = u, msg_text = t\<rparr>
         in (Inr m, \<lparr>rows = rows st @ [m], next_id = Suc (next_id st)\<rparr>))
      else (Inl StoreError, st))"

definition getMessages :: "store \<Rightarrow> error + message list" where
  "getMessages st = Inr (rows st)"

definition init :: "store server" where
  "init = \<lparr>db = \<lparr>rows = [], next_id = 1\<rparr>, pubSub = []\<rparr>"

subsection \<open>Runs of the server, one request at a time\<close>

text \<open>
  A run is a list of requests, each carried out to its end before the next (the
  single-writer order of the design). \<open>AddMessage\<close> carries whether the database accepts
  the write. The reply to a successful \<open>AddMessage\<close> also names the sessions whose
  suspended pull resumed with the new message; the reply to \<open>Next k\<close> is what the pull
  on session \<open>k\<close> yields at once.
\<close>

datatype event =
    AddMessage bool "string option" string
  | ListMessages "string option"
  | Subscribe "string option"
  | Next nat

datatype reply =
    Added "error + message" "nat list"
  | Awaiting
  | Idle
  | Listed "error + message list"
  | Subscribed "error + nat"
  | Yielded nat "message option"

fun step :: "event \<Rightarrow> store server \<Rightarrow> reply \<times> store server" where
  "step (AddMessage ok user text) s =
     (let (r, s') = Mutation_addMessage (createMessage ok) user text s
      in (Added r (case r of Inl e \<Rightarrow> [] | Inr m \<Rightarrow> resumed (pubSub s)), s'))"
| "step (ListMessages user) s = (Listed (Query_messages getMessages user s), s)"
| "step (Subscribe user) s =
     (let (r, s') = Subscription_messageAdded user s in (Subscribed r, s'))"
| "step (Next k) s =
     (let (r, ps) = nextMessage k (pubSub s) in (Yielded k r, s\<lparr>pubSub := ps\<rparr>))"

fun run :: "event list \<Rightarrow> store server \<Rightarrow> store server" where
  "run [] s = s"
| "run (e # es) s = run es (snd (step e s))"

fun outputs :: "event list \<Rightarrow> store server \<Rightarrow> reply list" where
  "outputs [] s = []"
| "outputs (e # es) s = fst (step e s) # outputs es (snd (step e s))"

text \<open>The messages of the \<open>addMessage\<close> calls that completed successfully, in order of
  completion.\<close>

fun added :: "reply \<Rightarrow> message list" where
  "added (Added (Inr m) ks) = [m]"
| "added _ = []"

definition created :: "event list \<Rightarrow> store server \<Rightarrow> message list" where
  "created es s = concat (map added (outputs es s))"

text \<open>What session \<open>k\<close> yields to its transport, read off the replies: the message a pull
  returns at once, and the message that resumes a suspended pull.\<close>

fun yielded :: "nat \<Rightarrow> reply \<Rightarrow> message list" where
  "yielded k (Added (Inr m) ks) = (if k \<in> set ks then [m] else [])"
| "yielded k (Yielded j (Some m)) = (if j = k then [m] else [])"
| "yielded k _ = []"

definition yields :: "nat \<Rightarrow> event list \<Rightarrow> store server \<Rightarrow> message list" where
  "yields k es s = concat (map (yielded k) (outputs es s))"

text \<open>The number of pulls made on session \<open>k\<close>.\<close>

definition pulls :: "nat \<Rightarrow> event list \<Rightarrow> nat" where
  "pulls k es = count_list es (Next k)"

subsection \<open>Runs with writes in flight\<close>

text \<open>
  The \<open>addMessage\<close> resolver gives up control at its \<^verbatim>\<open>await\<close>: other requests can be
  served between the store's acknowledgement of the write and the publish. The store
  serialises its appends and the resolvers resume in the order of the
  acknowledgements, so the state carries, next to the server, the acknowledged messages
  whose resolvers have not resumed yet, oldest first. \<open>Request (AddMessage \<dots>)\<close> runs a
  resolver up to its \<^verbatim>\<open>await\<close>, \<open>Resume\<close> lets the oldest waiting resolver finish; every
  other request is served as in a one-at-a-time run.
\<close>

datatype task = Request event | Resume

type_synonym scheduled = "store server \<times> message list"

fun astep :: "task \<Rightarrow> scheduled \<Rightarrow> reply \<times> scheduled" where
  "astep (Request (AddMessage ok user text)) (s, q) =
     (case addMessage_start (createMessage ok) user text s of
        (Inl e, s') \<Rightarrow> (Added (Inl e) [], (s', q))
      | (Inr m, s') \<Rightarrow> (Awaiting, (s', q @ [m])))"
| "astep (Request e) (s, q) = (fst (step e s), (snd (step e s), q))"
| "astep Resume (s, []) = (Idle, (s, []))"
| "astep Resume (s, m # q) =
     (case addMessage_resume m s of (r, s') \<Rightarrow> (Added r (resumed (pubSub s)), (s', q)))"

fun arun :: "task list \<Rightarrow> scheduled \<Rightarrow> scheduled" where
  "arun [] st = st"
| "arun (t # ts) st = arun ts (snd (astep t st))"

fun aoutputs :: "task list \<Rightarrow> scheduled \<Rightarrow> reply list" where
  "aoutputs [] st = []"
| "aoutputs (t # ts) st = fst (astep t st) # aoutputs ts (snd (astep t st))"

text \<open>The messages published in such a run, in order of publication; what session \<open>k\<close>
  yields; the number of pulls made on it.\<close>

definition published :: "task list \<Rightarrow> scheduled \<Rightarrow> message list" where
  "published ts st = concat (map added (aoutputs ts st))"

definition ayields :: "nat \<Rightarrow> task list \<Rightarrow> scheduled \<Rightarrow> message list" where
  "ayields k ts st = concat (map (yielded k) (aoutputs ts st))"

definition apulls :: "nat \<Rightarrow> task list \<Rightarrow> nat" where
  "apulls k ts = count_list ts (Request (Next k))"

text \<open>A one-at-a-time run as a run with writes in flight: each resolver resumes right
  after its own \<^verbatim>\<open>await\<close>.\<close>

fun expand :: "event \<Rightarrow> task list" where
  "expand (AddMessage ok user text) = [Request (AddMessage ok user text), Resume]"
| "expand e = [Request e]"

section \<open>Client: hooks (client/src/lib/graphql/hooks.js)\<close>

text \<open>A JavaScript value that may be \<^verbatim>\<open>undefined\<close> or \<^verbatim>\<open>null\<close>.\<close>

datatype 'a nullable = Undefined | Null | Value 'a

text \<open>\<^verbatim>\<open>x?.f\<close>: \<^verbatim>\<open>undefined\<close> when \<open>x\<close> is \<^verbatim>\<open>null\<close> or \<^verbatim>\<open>undefined\<close>.\<close>

fun opt_chain :: "'a nullable \<Rightarrow> ('a \<Rightarrow> 'b nullable) \<Rightarrow> 'b nullable" where
  "opt_chain (Value a) f = f a"
| "opt_chain _ f = Undefined"

text \<open>\<^verbatim>\<open>x ?? y\<close>.\<close>

fun nullish :: "'a nullable \<Rightarrow> 'a \<Rightarrow> 'a" where
  "nullish (Value a) y = a"
| "nullish _ y = y"

text \<open>\<^verbatim>\<open>x.f\<close>: a TypeError when \<open>x\<close> is \<^verbatim>\<open>null\<close> or \<^verbatim>\<open>undefined\<close>.\<close>

fun get_prop :: "'a nullable \<Rightarrow> ('a \<Rightarrow> 'b) \<Rightarrow> error + 'b" where
  "get_prop (Value a) f = Inr (f a)"
| "get_prop _ f = Inl TypeError"

text \<open>\<^verbatim>\<open>[...x]\<close>: a TypeError when \<open>x\<close> is not iterable.\<close>

fun spread :: "'a list nullable \<Rightarrow> error + 'a list" where
  "spread (Value xs) = Inr xs"
| "spread _ = Inl TypeError"

text \<open>
  The result shapes of the operations in queries.js: \<^verbatim>\<open>{ messages }\<close> for the query
  (the schema lets the list be null) and \<^verbatim>\<open>{ message }\<close> for a subscription event,
  which arrives wrapped as \<^verbatim>\<open>{ data: { message } }\<close>. The handler never looks inside
  a message, so its type is a parameter.
\<close>

record 'm messages_data =
  messages :: "'m list nullable"

record 'm event_data =
  message :: 'm

record 'm subscription_result =
  data :: "'m event_data nullable"

text \<open>
  Apollo's cache entry for \<^verbatim>\<open>messagesQuery\<close>: \<open>None\<close> until a result has been written.
  \<^verbatim>\<open>useQuery\<close> gives \<^verbatim>\<open>data = undefined\<close> while there is no entry; \<^verbatim>\<open>cache.readQuery\<close>
  gives \<^verbatim>\<open>null\<close>. \<^verbatim>\<open>cache.updateQuery\<close> reads the entry, applies the update function
  and writes its result; an exception in the update function leaves before the write.
\<close>

definition useQuery :: "'d option \<Rightarrow> 'd nullable" where
  "useQuery cache = (case cache of None \<Rightarrow> Undefined | Some d \<Rightarrow> Value d)"

definition readQuery :: "'d option \<Rightarrow> 'd nullable" where
  "readQuery cache = (case cache of None \<Rightarrow> Null | Some d \<Rightarrow> Value d)"

definition updateQuery :: "'d option \<Rightarrow> ('d nullable \<Rightarrow> error + 'd) \<Rightarrow> error + 'd option" where
  "updateQuery cache update =
     (case update (readQuery cache) of Inl e \<Rightarrow> Inl e | Inr d \<Rightarrow> Inr (Some d))"

text \<open>
  \<^verbatim>\<open>(oldData) => { return { messages: [...oldData.messages, newMessage] }; }\<close>
\<close>

definition update_messages :: "'m \<Rightarrow> 'm messages_data nullable \<Rightarrow> error + 'm messages_data" where
  "update_messages newMessage oldData =
     (case get_prop oldData messages of
        Inl e \<Rightarrow> Inl e
      | Inr ms \<Rightarrow>
          (case spread ms of
             Inl e \<Rightarrow> Inl e
           | Inr xs \<Rightarrow> Inr \<lparr>messages = Value (xs @ [newMessage])\<rparr>))"

text \<open>
  \<^verbatim>\<open>onData: ({ client, data }) => { const newMessage = data.data.message;
  client.cache.updateQuery({ query: messagesQuery }, (oldData) => ...); }\<close>.
  The result is the cache entry after the event, or the exception raised.
\<close>

definition onData ::
  "'m subscription_result \<Rightarrow> 'm messages_data option \<Rightarrow> error + 'm messages_data option" where
  "onData result cache =
     (case get_prop (data result) message of
        Inl e \<Rightarrow> Inl e
      | Inr newMessage \<Rightarrow> updateQuery cache (update_messages newMessage))"

text \<open>
  \<^verbatim>\<open>const { data } = useQuery(messagesQuery); ...
  return { messages: data?.messages ?? [] };\<close>
\<close>

definition useMessages :: "'m messages_data option \<Rightarrow> 'm list" where
  "useMessages cache = nullish (opt_chain (useQuery cache) messages) []"

section \<open>Predicates used in the statements\<close>

text \<open>Creation order: the store-assigned identifier of the first is the smaller one.\<close>

definition by_id :: "message \<Rightarrow> message \<Rightarrow> bool" where
  "by_id a b \<longleftrightarrow> msg_id a < msg_id b"

text \<open>The log is in strictly increasing identifier order and every identifier in it is
  below the next one to be handed out.\<close>

definition store_ok :: "store \<Rightarrow> bool" where
  "store_ok st \<longleftrightarrow>
     sorted_wrt by_id (rows st) \<and> (\<forall>m \<in> set (rows st). msg_id m < next_id st)"

text \<open>Every registered session belongs to a named principal and holds only messages that
  are in the store.\<close>

definition sessions_sound :: "store server \<Rightarrow> bool" where
  "sessions_sound s \<longleftrightarrow>
     (\<forall>ss \<in> set (pubSub s). owner ss \<noteq> [] \<and> set (stream ss) \<subseteq> set (rows (db s)))"

text \<open>The requests that register a session: a subscribe with a truthy user.\<close>

fun registers :: "event \<Rightarrow> bool" where
  "registers (Subscribe user) = truthy user"
| "registers _ = False"

text \<open>Session \<open>ss\<close> after \<open>p\<close> pulls, when \<open>c\<close> are the messages that have reached it: the
  first \<open>p\<close> of them have been yielded, the others are queued, and the pulls beyond the
  messages are suspended.\<close>

definition tracks :: "session \<Rightarrow> message list \<Rightarrow> nat \<Rightarrow> bool" where
  "tracks ss c p \<longleftrightarrow>
     delivered ss = take p c \<and> pending ss = drop p c \<and> waiting ss = p - length c"

text \<open>The acknowledged messages in flight are in strictly increasing identifier order
  and below the next identifier.\<close>

definition inflight_ok :: "scheduled \<Rightarrow> bool" where
  "inflight_ok st \<longleftrightarrow>
     sorted_wrt by_id (snd st) \<and> (\<forall>m \<in> set (snd st). msg_id m < next_id (db (fst st)))"

text \<open>A message still to be published from \<open>st\<close> on: in flight, or not yet created.\<close>

definition later :: "scheduled \<Rightarrow> message \<Rightarrow> bool" where
  "later st m \<longleftrightarrow> m \<in> set (snd st) \<or> next_id (db (fst st)) \<le> msg_id m"

section \<open>Runs: what each request does to the store and the sessions\<close>

lemma store_ok_init: "store_ok (db init)"
  by (simp add: store_ok_def init_def)

lemma createMessage_ok:
  "store_ok st \<Longrightarrow> createMessage ok u t st = (r, st') \<Longrightarrow> store_ok st'"
  by (auto simp: createMessage_def Let_def store_ok_def sorted_wrt_append by_id_def
      less_Suc_eq split: if_splits)

lemma step_rows: "rows (db (snd (step e s))) = rows (db s) @ added (fst (step e s))"
proof (cases e)
  case (AddMessage ok user t)
  then show ?thesis
    by (auto simp: createMessage_def Let_def split: prod.splits sum.splits)
next
  case (ListMessages user)
  then show ?thesis by simp
next
  case (Subscribe user)
  then show ?thesis
    by (simp add: Subscription_messageAdded_def asyncIterableIterator_def)
next
  case (Next k)
  then show ?thesis by (simp split: prod.splits)
qed

lemma step_store_ok: "store_ok (db s) \<Longrightarrow> store_ok (db (snd (step e s)))"
proof (cases e)
  case (AddMessage ok user t)
  assume "store_ok (db s)"
  with AddMessage show ?thesis
    by (auto split: prod.splits sum.splits dest: createMessage_ok)
next
  case (ListMessages user)
  assume "store_ok (db s)"
  with ListMessages show ?thesis by simp
next
  case (Subscribe user)
  assume "store_ok (db s)"
  with Subscribe show ?thesis
    by (simp add: Subscription_messageAdded_def asyncIterableIterator_def)
next
  case (Next k)
  assume "store_ok (db s)"
  with Next show ?thesis by (simp split: prod.splits)
qed

lemma run_rows: "rows (db (run es s)) = rows (db s) @ created es s"
  by (induction es arbitrary: s) (simp_all add: created_def step_rows)

lemma run_store_ok: "store_ok (db s) \<Longrightarrow> store_ok (db (run es s))"
  by (induction es arbitrary: s) (simp_all add: step_store_ok)

lemma created_Cons: "created (e # es) s = added (fst (step e s)) @ created es (snd (step e s))"
  by (simp add: created_def)

lemma run_append: "run (es @ es') s = run es' (run es s)"
  by (induction es arbitrary: s) simp_all

lemma nextMessage_length: "length (snd (nextMessage k ps)) = length ps"
  by (simp add: nextMessage_def split: list.splits)

lemma nextMessage_stream:
  "j < length ps \<Longrightarrow> stream (snd (nextMessage k ps) ! j) = stream (ps ! j)"
  by (auto simp: nextMessage_def stream_def nth_list_update split: list.splits)

lemma nextMessage_owner:
  "j < length ps \<Longrightarrow> owner (snd (nextMessage k ps) ! j) = owner (ps ! j)"
  by (auto simp: nextMessage_def nth_list_update split: list.splits)

lemma step_Next_snd: "snd (step (Next k) s) = s\<lparr>pubSub := snd (nextMessage k (pubSub s))\<rparr>"
  by (simp split: prod.splits)

lemma step_length: "length (pubSub s) \<le> length (pubSub (snd (step e s)))"
proof (cases e)
  case (Next k)
  then show ?thesis by (simp only: step_Next_snd) (simp add: nextMessage_length)
qed (auto simp: publish_def Subscription_messageAdded_def asyncIterableIterator_def
      split: prod.splits sum.splits)

lemma nextMessage_set:
  "ss \<in> set (snd (nextMessage k ps)) \<Longrightarrow>
   \<exists>ss' \<in> set ps. owner ss = owner ss' \<and> stream ss = stream ss'"
proof -
  assume "ss \<in> set (snd (nextMessage k ps))"
  then obtain j where j: "j < length (snd (nextMessage k ps))" and ss: "ss = snd (nextMessage k ps) ! j"
    by (auto simp: in_set_conv_nth)
  from j have j': "j < length ps" by (simp add: nextMessage_length)
  then have "ps ! j \<in> set ps" by simp
  moreover have "owner ss = owner (ps ! j)" "stream ss = stream (ps ! j)"
    using j' ss by (simp_all add: nextMessage_owner nextMessage_stream)
  ultimately show ?thesis by blast
qed

lemma enqueue_stream: "set (stream (enqueue m ss)) = insert m (set (stream ss))"
  by (auto simp: enqueue_def stream_def)

lemma enqueue_owner: "owner (enqueue m ss) = owner ss"
  by (simp add: enqueue_def)

lemma publish_sound:
  assumes "\<forall>ss \<in> set ps. owner ss \<noteq> [] \<and> set (stream ss) \<subseteq> R"
  shows "\<forall>ss \<in> set (publish m ps). owner ss \<noteq> [] \<and> set (stream ss) \<subseteq> insert m R"
  using assms by (auto simp: publish_def enqueue_stream enqueue_owner)

lemma step_sessions_sound: "sessions_sound s \<Longrightarrow> sessions_sound (snd (step e s))"
proof (cases e)
  case (AddMessage ok user t)
  assume a: "sessions_sound s"
  show ?thesis
  proof (cases "truthy user \<and> ok")
    case True
    with a publish_sound [of "pubSub s" "set (rows (db s))"] AddMessage show ?thesis
      by (simp add: sessions_sound_def createMessage_def Let_def)
  next
    case False
    with a AddMessage show ?thesis
      by (auto simp: sessions_sound_def createMessage_def)
  qed
next
  case (ListMessages user)
  assume "sessions_sound s"
  with ListMessages show ?thesis by simp
next
  case (Subscribe user)
  assume "sessions_sound s"
  with Subscribe show ?thesis
    by (cases user)
      (auto simp: sessions_sound_def Subscription_messageAdded_def asyncIterableIterator_def
        stream_def)
next
  case (Next k)
  assume a: "sessions_sound s"
  show ?thesis
    unfolding Next step_Next_snd sessions_sound_def
  proof
    fix ss assume "ss \<in> set (pubSub (s\<lparr>pubSub := snd (nextMessage k (pubSub s))\<rparr>))"
    then have "ss \<in> set (snd (nextMessage k (pubSub s)))" by simp
    then obtain ss' where "ss' \<in> set (pubSub s)" "owner ss = owner ss'" "stream ss = stream ss'"
      using nextMessage_set by blast
    with a show "owner ss \<noteq> [] \<and> set (stream ss) \<subseteq> set (rows (db (s\<lparr>pubSub := snd (nextMessage k (pubSub s))\<rparr>)))"
      by (auto simp: sessions_sound_def)
  qed
qed

lemma run_sessions_sound: "sessions_sound s \<Longrightarrow> sessions_sound (run es s)"
  by (induction es arbitrary: s) (simp_all add: step_sessions_sound)

lemma sessions_sound_init: "sessions_sound init"
  by (simp add: sessions_sound_def init_def)

lemma step_registers:
  "length (pubSub (snd (step e s))) = length (pubSub s) + (if registers e then 1 else 0)"
proof (cases e)
  case (Next k)
  then show ?thesis by (simp only: step_Next_snd) (simp add: nextMessage_length)
qed (auto simp: publish_def Subscription_messageAdded_def asyncIterableIterator_def
      split: prod.splits sum.splits)

lemma run_registers:
  "length (pubSub (run es s)) = length (pubSub s) + length (filter registers es)"
  by (induction es arbitrary: s) (simp_all add: step_registers)

lemma created_sorted:
  assumes "store_ok (db s)"
  shows "sorted_wrt by_id (created es s)"
proof -
  have "store_ok (db (run es s))" using assms by (rule run_store_ok)
  then have "sorted_wrt by_id (rows (db s) @ created es s)"
    by (simp add: store_ok_def run_rows)
  then show ?thesis by (simp add: sorted_wrt_append)
qed

lemma by_id_distinct: "sorted_wrt by_id ms \<Longrightarrow> distinct ms"
  by (induction ms) (auto simp: by_id_def)

lemma reachable_store_ok: "store_ok (db (run es init))"
  by (rule run_store_ok [OF store_ok_init])

subsection \<open>One session through a run\<close>

lemma enqueue_tracks: "tracks ss c p \<Longrightarrow> tracks (enqueue m ss) (c @ [m]) p"
  by (auto simp: tracks_def enqueue_def)

lemma publish_tracks:
  "k < length ps \<Longrightarrow> tracks (ps ! k) c p \<Longrightarrow> tracks (publish m ps ! k) (c @ [m]) p"
  by (simp add: publish_def enqueue_tracks)

lemma publish_delivered:
  "k < length ps \<Longrightarrow>
   delivered (publish m ps ! k) = delivered (ps ! k) @ (if k \<in> set (resumed ps) then [m] else [])"
  by (simp add: publish_def enqueue_def resumed_def)

lemma nextMessage_tracks:
  assumes "k < length ps" and "tracks (ps ! k) c p"
  shows "tracks (snd (nextMessage k ps) ! k) c (Suc p)"
proof (cases "pending (ps ! k)")
  case Nil
  with assms(2) have "length c \<le> p" by (simp add: tracks_def)
  with assms Nil show ?thesis by (simp add: nextMessage_def tracks_def)
next
  case (Cons m ms)
  from assms(2) have del: "delivered (ps ! k) = take p c"
    and w: "waiting (ps ! k) = p - length c"
    and pend: "pending (ps ! k) = drop p c"
    by (simp_all add: tracks_def)
  from pend Cons have d: "drop p c = m # ms" by simp
  then have p: "p < length c" by (cases "p < length c") simp_all
  from d have m: "c ! p = m" and ms: "drop (Suc p) c = ms"
    using Cons_nth_drop_Suc [OF p] by simp_all
  have "snd (nextMessage k ps) ! k
      = (ps ! k)\<lparr>delivered := delivered (ps ! k) @ [m], pending := ms\<rparr>"
    using assms(1) Cons by (simp add: nextMessage_def)
  with del w p m ms show ?thesis
    by (simp add: tracks_def take_Suc_conv_app_nth)
qed

lemma nextMessage_other:
  "j \<noteq> k \<Longrightarrow> snd (nextMessage j ps) ! k = ps ! k"
  by (simp add: nextMessage_def split: list.splits)

lemma nextMessage_delivered:
  "k < length ps \<Longrightarrow>
   delivered (snd (nextMessage k ps) ! k)
     = delivered (ps ! k) @ (case fst (nextMessage k ps) of None \<Rightarrow> [] | Some m \<Rightarrow> [m])"
  by (simp add: nextMessage_def split: list.splits)

lemma yielded_other: "j \<noteq> k \<Longrightarrow> yielded k (Yielded j r) = []"
  by (cases r) simp_all

lemma pulls_Cons: "pulls k (e # es) = count_list [e] (Next k) + pulls k es"
  by (simp add: pulls_def)

lemma step_Next_fst: "fst (step (Next j) s) = Yielded j (fst (nextMessage j (pubSub s)))"
  by (simp split: prod.splits)

lemma step_tracks:
  assumes "k < length (pubSub s)" and "tracks (pubSub s ! k) c p"
  shows "tracks (pubSub (snd (step e s)) ! k) (c @ added (fst (step e s)))
           (p + count_list [e] (Next k))"
proof (cases e)
  case (AddMessage ok user t)
  with assms show ?thesis
    by (auto simp: publish_tracks split: prod.splits sum.splits)
next
  case (ListMessages user)
  with assms show ?thesis by simp
next
  case (Subscribe user)
  with assms show ?thesis
    by (simp add: Subscription_messageAdded_def asyncIterableIterator_def nth_append)
next
  case (Next j)
  show ?thesis
  proof (cases "j = k")
    case True
    with assms Next show ?thesis
      by (simp only: step_Next_snd step_Next_fst) (simp add: nextMessage_tracks)
  next
    case False
    with assms Next show ?thesis
      by (simp only: step_Next_snd step_Next_fst) (simp add: nextMessage_other)
  qed
qed

lemma step_delivered:
  assumes "k < length (pubSub s)"
  shows "delivered (pubSub (snd (step e s)) ! k)
           = delivered (pubSub s ! k) @ yielded k (fst (step e s))"
proof (cases e)
  case (AddMessage ok user t)
  with assms show ?thesis
    by (auto simp: publish_delivered split: prod.splits sum.splits)
next
  case (ListMessages user)
  with assms show ?thesis by simp
next
  case (Subscribe user)
  with assms show ?thesis
    by (simp add: Subscription_messageAdded_def asyncIterableIterator_def nth_append)
next
  case (Next j)
  show ?thesis
  proof (cases "j = k")
    case True
    with assms Next show ?thesis
      by (simp only: step_Next_snd step_Next_fst)
        (simp add: nextMessage_delivered split: option.splits)
  next
    case False
    with assms Next show ?thesis
      by (simp only: step_Next_snd step_Next_fst)
        (simp add: nextMessage_other yielded_other)
  qed
qed

lemma yields_Cons: "yields k (e # es) s = yielded k (fst (step e s)) @ yields k es (snd (step e s))"
  by (simp add: yields_def)

lemma run_tracks:
  "k < length (pubSub s) \<Longrightarrow> tracks (pubSub s ! k) c p \<Longrightarrow>
   tracks (pubSub (run es s) ! k) (c @ created es s) (p + pulls k es)"
proof (induction es arbitrary: s c p)
  case Nil
  then show ?case by (simp add: created_def pulls_def)
next
  case (Cons e es)
  have len: "k < length (pubSub (snd (step e s)))"
    using Cons.prems(1) step_length [of s e] by simp
  have "tracks (pubSub (snd (step e s)) ! k) (c @ added (fst (step e s)))
          (p + count_list [e] (Next k))"
    using Cons.prems by (rule step_tracks)
  from Cons.IH [OF len this] show ?case
    by (simp only: run.simps created_Cons pulls_Cons append_assoc add.assoc)
qed

lemma run_delivered:
  "k < length (pubSub s) \<Longrightarrow>
   delivered (pubSub (run es s) ! k) = delivered (pubSub s ! k) @ yields k es s"
proof (induction es arbitrary: s)
  case Nil
  then show ?case by (simp add: yields_def)
next
  case (Cons e es)
  have len: "k < length (pubSub (snd (step e s)))"
    using Cons.prems step_length [of s e] by simp
  from Cons.IH [OF len] Cons.prems show ?case
    by (simp add: yields_Cons step_delivered)
qed

lemma subscribe_result:
  assumes "Subscription_messageAdded user s = (Inr k, s1)"
  shows "k < length (pubSub s1)" and "db s1 = db s"
    and "tracks (pubSub s1 ! k) [] 0" and "delivered (pubSub s1 ! k) = []"
  using assms
  by (auto simp: Subscription_messageAdded_def asyncIterableIterator_def tracks_def
      split: if_splits)

lemma tracks_stream: "tracks ss c p \<Longrightarrow> stream ss = c"
  by (simp add: tracks_def stream_def)

subsection \<open>Runs with writes in flight\<close>

lemma addMessage_split:
  "Mutation_addMessage cm user t s =
     (case addMessage_start cm user t s of
        (Inl e, s') \<Rightarrow> (Inl e, s')
      | (Inr m, s') \<Rightarrow> addMessage_resume m s')"
  by (simp add: addMessage_start_def addMessage_resume_def split: prod.splits sum.splits)

lemma astep_Request:
  "astep (Request e) (s, q) =
     (case e of
        AddMessage ok user t \<Rightarrow>
          (case addMessage_start (createMessage ok) user t s of
             (Inl x, s') \<Rightarrow> (Added (Inl x) [], (s', q))
           | (Inr m, s') \<Rightarrow> (Awaiting, (s', q @ [m])))
      | _ \<Rightarrow> (fst (step e s), (snd (step e s), q)))"
  by (cases e) simp_all

lemma start_pubSub: "pubSub (snd (addMessage_start cm user t s)) = pubSub s"
  by (simp add: addMessage_start_def split: prod.splits)

lemma astep_length:
  "length (pubSub (fst st)) \<le> length (pubSub (fst (snd (astep t st))))"
proof (cases st)
  case (Pair s q)
  show ?thesis
  proof (cases t)
    case (Request e)
    show ?thesis
    proof (cases e)
      case (AddMessage ok user x)
      with Pair Request start_pubSub [of "createMessage ok" user x s] show ?thesis
        by (auto split: prod.splits sum.splits)
    qed (use Pair Request step_length [of s e] in \<open>simp_all del: step.simps\<close>)
  next
    case Resume
    with Pair show ?thesis
      by (cases q) (simp_all add: addMessage_resume_def publish_def)
  qed
qed

lemma astep_tracks:
  assumes "k < length (pubSub (fst st))" and "tracks (pubSub (fst st) ! k) c p"
  shows "tracks (pubSub (fst (snd (astep t st))) ! k) (c @ added (fst (astep t st)))
           (p + count_list [t] (Request (Next k)))"
proof (cases st)
  case (Pair s q)
  show ?thesis
  proof (cases t)
    case (Request e)
    show ?thesis
    proof (cases e)
      case (AddMessage ok user x)
      with Pair Request assms start_pubSub [of "createMessage ok" user x s] show ?thesis
        by (auto split: prod.splits sum.splits)
    qed (use Pair Request assms step_tracks [of k s c p e] in \<open>auto simp del: step.simps split: if_splits\<close>)
  next
    case Resume
    with Pair assms show ?thesis
      by (cases q) (simp_all add: addMessage_resume_def publish_tracks)
  qed
qed

lemma astep_delivered:
  assumes "k < length (pubSub (fst st))"
  shows "delivered (pubSub (fst (snd (astep t st))) ! k)
           = delivered (pubSub (fst st) ! k) @ yielded k (fst (astep t st))"
proof (cases st)
  case (Pair s q)
  show ?thesis
  proof (cases t)
    case (Request e)
    show ?thesis
    proof (cases e)
      case (AddMessage ok user x)
      with Pair Request assms start_pubSub [of "createMessage ok" user x s] show ?thesis
        by (auto split: prod.splits sum.splits)
    qed (use Pair Request assms step_delivered [of k s e] in \<open>simp_all del: step.simps\<close>)
  next
    case Resume
    with Pair assms show ?thesis
      by (cases q) (simp_all add: addMessage_resume_def publish_delivered)
  qed
qed

lemma published_Cons:
  "published (t # ts) st = added (fst (astep t st)) @ published ts (snd (astep t st))"
  by (simp add: published_def)

lemma ayields_Cons:
  "ayields k (t # ts) st = yielded k (fst (astep t st)) @ ayields k ts (snd (astep t st))"
  by (simp add: ayields_def)

lemma apulls_Cons: "apulls k (t # ts) = count_list [t] (Request (Next k)) + apulls k ts"
  by (simp add: apulls_def)

lemma arun_tracks:
  "k < length (pubSub (fst st)) \<Longrightarrow> tracks (pubSub (fst st) ! k) c p \<Longrightarrow>
   tracks (pubSub (fst (arun ts st)) ! k) (c @ published ts st) (p + apulls k ts)"
proof (induction ts arbitrary: st c p)
  case Nil
  then show ?case by (simp add: published_def apulls_def)
next
  case (Cons t ts)
  have len: "k < length (pubSub (fst (snd (astep t st))))"
    using Cons.prems(1) astep_length [of st t] by simp
  have "tracks (pubSub (fst (snd (astep t st))) ! k) (c @ added (fst (astep t st)))
          (p + count_list [t] (Request (Next k)))"
    using Cons.prems by (rule astep_tracks)
  from Cons.IH [OF len this] show ?case
    by (simp only: arun.simps published_Cons apulls_Cons append_assoc add.assoc)
qed

lemma arun_delivered:
  "k < length (pubSub (fst st)) \<Longrightarrow>
   delivered (pubSub (fst (arun ts st)) ! k) = delivered (pubSub (fst st) ! k) @ ayields k ts st"
proof (induction ts arbitrary: st)
  case Nil
  then show ?case by (simp add: ayields_def)
next
  case (Cons t ts)
  have len: "k < length (pubSub (fst (snd (astep t st))))"
    using Cons.prems astep_length [of st t] by simp
  from Cons.IH [OF len] Cons.prems show ?case
    by (simp add: ayields_Cons astep_delivered)
qed

lemma step_db: "db (snd (step (ListMessages u) s)) = db s"
  "db (snd (step (Subscribe u) s)) = db s" "db (snd (step (Next j) s)) = db s"
  by (simp_all add: Subscription_messageAdded_def asyncIterableIterator_def split: prod.splits)

lemma step_no_add: "added (fst (step (ListMessages u) s)) = []"
  "added (fst (step (Subscribe u) s)) = []" "added (fst (step (Next j) s)) = []"
  by (simp_all split: prod.splits)

lemma start_cases:
  assumes "addMessage_start (createMessage ok) user x s = (r, s')"
  shows "(\<exists>e. r = Inl e \<and> db s' = db s) \<or>
         (\<exists>m. r = Inr m \<and> msg_id m = next_id (db s) \<and> next_id (db s') = Suc (next_id (db s)))"
  using assms
  by (auto simp: addMessage_start_def createMessage_def Let_def split: if_splits)

lemma astep_inflight_ok: "inflight_ok st \<Longrightarrow> inflight_ok (snd (astep t st))"
proof (cases st)
  case (Pair s q)
  assume ok: "inflight_ok st"
  show ?thesis
  proof (cases t)
    case (Request e)
    show ?thesis
    proof (cases e)
      case (AddMessage b user x)
      obtain r s' where st: "addMessage_start (createMessage b) user x s = (r, s')"
        by (cases "addMessage_start (createMessage b) user x s")
      from start_cases [OF st] ok Pair Request AddMessage st show ?thesis
        by (auto simp: inflight_ok_def sorted_wrt_append by_id_def less_Suc_eq)
    qed (use ok Pair Request in \<open>simp_all add: inflight_ok_def step_db del: step.simps\<close>)
  next
    case Resume
    with ok Pair show ?thesis
      by (cases q) (simp_all add: inflight_ok_def addMessage_resume_def)
  qed
qed

lemma astep_later: "inflight_ok st \<Longrightarrow> later (snd (astep t st)) x \<Longrightarrow> later st x"
proof (cases st)
  case (Pair s q)
  assume ok: "inflight_ok st" and l: "later (snd (astep t st)) x"
  show ?thesis
  proof (cases t)
    case (Request e)
    show ?thesis
    proof (cases e)
      case (AddMessage b user y)
      obtain r s' where st: "addMessage_start (createMessage b) user y s = (r, s')"
        by (cases "addMessage_start (createMessage b) user y s")
      from start_cases [OF st] l Pair Request AddMessage st show ?thesis
        by (auto simp: later_def)
    qed (use l Pair Request in \<open>simp_all add: later_def step_db del: step.simps\<close>)
  next
    case Resume
    with l Pair show ?thesis
      by (cases q) (auto simp: later_def addMessage_resume_def)
  qed
qed

lemma astep_added:
  assumes "inflight_ok st" and "m \<in> set (added (fst (astep t st)))"
  shows "later st m" and "later (snd (astep t st)) x \<Longrightarrow> by_id m x"
proof -
  obtain s q where st: "st = (s, q)" by (cases st)
  have "t = Resume \<and> (\<exists>q'. q = m # q')"
  proof (cases t)
    case (Request e)
    with assms(2) st show ?thesis
      by (cases e) (auto simp: step_no_add simp del: step.simps split: prod.splits sum.splits)
  next
    case Resume
    with assms(2) st show ?thesis
      by (cases q) (simp_all add: addMessage_resume_def)
  qed
  then obtain q' where t: "t = Resume" and q: "q = m # q'" by blast
  show "later st m" using st q by (simp add: later_def)
  show "by_id m x" if "later (snd (astep t st)) x"
    using that assms(1) st t q
    by (auto simp: later_def inflight_ok_def addMessage_resume_def by_id_def)
qed

lemma published_sorted:
  "inflight_ok st \<Longrightarrow>
   sorted_wrt by_id (published ts st) \<and> (\<forall>m \<in> set (published ts st). later st m)"
proof (induction ts arbitrary: st)
  case Nil
  show ?case by (simp add: published_def)
next
  case (Cons t ts)
  let ?st = "snd (astep t st)"
  have ok: "inflight_ok ?st" using Cons.prems by (rule astep_inflight_ok)
  note ih = Cons.IH [OF ok]
  have one: "sorted_wrt by_id (added (fst (astep t st)))"
    by (cases "fst (astep t st)" rule: added.cases) simp_all
  have cross: "by_id m x"
    if "m \<in> set (added (fst (astep t st)))" and "x \<in> set (published ts ?st)" for m x
    using astep_added(2) [OF Cons.prems that(1)] ih that(2) by blast
  have lat: "later st m" if "m \<in> set (published (t # ts) st)" for m
    using that ih astep_added(1) [OF Cons.prems] astep_later [OF Cons.prems]
    by (auto simp: published_Cons)
  from one ih cross lat show ?case
    by (auto simp: published_Cons sorted_wrt_append)
qed

lemma arun_inflight_ok: "inflight_ok st \<Longrightarrow> inflight_ok (arun ts st)"
  by (induction ts arbitrary: st) (simp_all add: astep_inflight_ok)

lemma inflight_ok_init: "inflight_ok (init, [])"
  by (simp add: inflight_ok_def)

lemma arun_expand:
  "arun (concat (map expand es)) (s, []) = (run es s, []) \<and>
   published (concat (map expand es)) (s, []) = created es s \<and>
   ayields k (concat (map expand es)) (s, []) = yields k es s"
proof (induction es arbitrary: s)
  case Nil
  show ?case by (simp add: published_def created_def ayields_def yields_def)
next
  case (Cons e es)
  have "arun (expand e) (s, []) = (snd (step e s), []) \<and>
        published (expand e) (s, []) = added (fst (step e s)) \<and>
        ayields k (expand e) (s, []) = yielded k (fst (step e s))"
    by (cases e)
      (auto simp: published_def ayields_def addMessage_start_def addMessage_resume_def
        split: prod.splits sum.splits)
  moreover have "arun (ts @ ts') st = arun ts' (arun ts st)" for ts ts' st
    by (induction ts arbitrary: st) simp_all
  moreover have "published (ts @ ts') st = published ts st @ published ts' (arun ts st)"
    for ts ts' st
    by (induction ts arbitrary: st) (simp_all add: published_def)
  moreover have "ayields k (ts @ ts') st = ayields k ts st @ ayields k ts' (arun ts st)"
    for ts ts' st
    by (induction ts arbitrary: st) (simp_all add: ayields_def)
  ultimately show ?case
    using Cons.IH [of "snd (step e s)"]
    by (simp add: created_Cons yields_Cons)
qed

section \<open>Properties of the resolvers\<close>

text \<open>
  C1. \<open>addMessage\<close> called with an unauthenticated principal (no user in the context, or
  any other falsy user) fails with \<open>AuthorizationError\<close> and returns the server state it
  was given: the store and every session's queue are as before, whatever the store's
  \<open>createMessage\<close> is.
\<close>

theorem addMessage_unauthenticated:
  "\<not> truthy user \<Longrightarrow>
   Mutation_addMessage cm user t s = (Inl AuthorizationError, s)"
  by simp

theorem addMessage_unauthenticated_witness:
  "\<not> truthy None \<and>
   Mutation_addMessage (createMessage True) None ''hello'' init = (Inl AuthorizationError, init)"
  using addMessage_unauthenticated [of None "createMessage True" "''hello''" init]
  by simp

text \<open>
  C2. After any run from the empty server, \<open>listMessages\<close> for an authenticated principal
  returns exactly the messages of the \<open>addMessage\<close> calls that completed successfully, in
  their order of completion, and that list is strictly increasing in \<open>id\<close>; for an
  unauthenticated principal it fails with \<open>AuthorizationError\<close>.
\<close>

theorem listMessages_created_order:
  assumes "truthy user" and "\<not> truthy anon"
  shows "Query_messages getMessages user (run es init) = Inr (created es init) \<and>
         sorted_wrt by_id (created es init) \<and>
         Query_messages getMessages anon (run es init) = Inl AuthorizationError"
  using assms created_sorted [OF store_ok_init, of es]
  by (simp add: Query_messages_def getMessages_def run_rows init_def)

theorem listMessages_created_order_witness:
  "truthy (Some ''bob'') \<and> \<not> truthy None \<and>
   created [AddMessage True (Some ''alice'') ''hello'', AddMessage False (Some ''bob'') ''lost'',
            AddMessage True None ''anon'', AddMessage True (Some ''bob'') ''hi''] init
     = [\<lparr>msg_id = 1, msg_user = ''alice'', msg_text = ''hello''\<rparr>,
        \<lparr>msg_id = 2, msg_user = ''bob'', msg_text = ''hi''\<rparr>] \<and>
   Query_messages getMessages (Some ''bob'')
     (run [AddMessage True (Some ''alice'') ''hello'', AddMessage False (Some ''bob'') ''lost'',
           AddMessage True None ''anon'', AddMessage True (Some ''bob'') ''hi''] init)
     = Inr [\<lparr>msg_id = 1, msg_user = ''alice'', msg_text = ''hello''\<rparr>,
            \<lparr>msg_id = 2, msg_user = ''bob'', msg_text = ''hi''\<rparr>] \<and>
   sorted_wrt by_id [\<lparr>msg_id = 1, msg_user = ''alice'', msg_text = ''hello''\<rparr>,
                     \<lparr>msg_id = 2, msg_user = ''bob'', msg_text = ''hi''\<rparr>] \<and>
   Query_messages getMessages None
     (run [AddMessage True (Some ''alice'') ''hello'', AddMessage False (Some ''bob'') ''lost'',
           AddMessage True None ''anon'', AddMessage True (Some ''bob'') ''hi''] init)
     = Inl AuthorizationError"
proof -
  let ?es = "[AddMessage True (Some ''alice'') ''hello'', AddMessage False (Some ''bob'') ''lost'',
              AddMessage True None ''anon'', AddMessage True (Some ''bob'') ''hi'']"
  have c: "created ?es init
     = [\<lparr>msg_id = 1, msg_user = ''alice'', msg_text = ''hello''\<rparr>,
        \<lparr>msg_id = 2, msg_user = ''bob'', msg_text = ''hi''\<rparr>]"
    by (simp add: created_def createMessage_def init_def publish_def Let_def)
  have t: "truthy (Some ''bob'')" and a: "\<not> truthy None" by simp_all
  from listMessages_created_order [OF t a, of ?es] c t a show ?thesis
    by (simp only:) simp
qed

text \<open>
  C3, as amended. The resolver does not validate the text. For an authenticated
  principal and any text, the empty one included, \<open>addMessage\<close> returns what the store's
  \<open>createMessage\<close> returns for that text; when the store accepts the write, a message
  with exactly that text is created, appended to the store and published to every
  session.
\<close>

theorem addMessage_text_unvalidated:
  assumes "u \<noteq> []"
  shows "fst (Mutation_addMessage cm (Some u) t s) = fst (cm u t (db s)) \<and>
         fst (Mutation_addMessage (createMessage True) (Some u) t s0)
           = Inr \<lparr>msg_id = next_id (db s0), msg_user = u, msg_text = t\<rparr> \<and>
         rows (db (snd (Mutation_addMessage (createMessage True) (Some u) t s0)))
           = rows (db s0) @ [\<lparr>msg_id = next_id (db s0), msg_user = u, msg_text = t\<rparr>] \<and>
         pubSub (snd (Mutation_addMessage (createMessage True) (Some u) t s0))
           = publish \<lparr>msg_id = next_id (db s0), msg_user = u, msg_text = t\<rparr> (pubSub s0)"
  using assms by (auto simp: createMessage_def Let_def split: prod.splits sum.splits)

theorem addMessage_text_unvalidated_witness:
  "''alice'' \<noteq> [] \<and>
   fst (Mutation_addMessage (createMessage False) (Some ''alice'') [] init) = Inl StoreError \<and>
   fst (Mutation_addMessage (createMessage True) (Some ''alice'') [] init)
     = Inr \<lparr>msg_id = 1, msg_user = ''alice'', msg_text = []\<rparr> \<and>
   rows (db (snd (Mutation_addMessage (createMessage True) (Some ''alice'') [] init)))
     = [\<lparr>msg_id = 1, msg_user = ''alice'', msg_text = []\<rparr>] \<and>
   pubSub (snd (Mutation_addMessage (createMessage True) (Some ''alice'') [] init)) = []"
proof -
  have h: "''alice'' \<noteq> []" by simp
  have f: "fst (createMessage False ''alice'' [] (db init)) = Inl StoreError"
    by (simp add: createMessage_def)
  from addMessage_text_unvalidated [OF h, of "createMessage False" "[]" init init] f h
  show ?thesis by (simp add: init_def publish_def)
qed

text \<open>
  C3 as the design document states it (an empty text fails with \<open>ValidationError\<close> and
  creates no message) does not hold: \<^verbatim>\<open>addMessage("")\<close> by alice on the empty server
  succeeds and stores a message with the empty text.
\<close>

theorem addMessage_empty_text_counterexample:
  "Mutation_addMessage (createMessage True) (Some ''alice'') [] init
     = (Inr \<lparr>msg_id = 1, msg_user = ''alice'', msg_text = []\<rparr>,
        \<lparr>db = \<lparr>rows = [\<lparr>msg_id = 1, msg_user = ''alice'', msg_text = []\<rparr>], next_id = 2\<rparr>,
         pubSub = []\<rparr>) \<and>
   fst (Mutation_addMessage (createMessage True) (Some ''alice'') [] init) \<noteq> Inl ValidationError"
  by (simp add: createMessage_def init_def publish_def Let_def)

text \<open>
  C4. When the store's \<open>createMessage\<close> fails, \<open>addMessage\<close> fails with that error and
  the sessions' queues are untouched: nothing is published. Hence, in every run, each
  message that any session has received or has queued is among the messages that
  \<open>listMessages\<close> returns then and at any later time.
\<close>

theorem publish_only_after_append:
  assumes "fst (cm u t (db s)) = Inl e" and "truthy reader"
  shows "fst (Mutation_addMessage cm (Some u) t s) = Inl (if u = [] then AuthorizationError else e) \<and>
         pubSub (snd (Mutation_addMessage cm (Some u) t s)) = pubSub s \<and>
         (\<exists>ms. Query_messages getMessages reader (run (es @ es') init) = Inr ms \<and>
               (\<forall>ss \<in> set (pubSub (run es init)). set (stream ss) \<subseteq> set ms))"
proof -
  have "sessions_sound (run es init)"
    by (rule run_sessions_sound [OF sessions_sound_init])
  then have "\<forall>ss \<in> set (pubSub (run es init)).
      set (stream ss) \<subseteq> set (rows (db (run (es @ es') init)))"
    by (auto simp: sessions_sound_def run_append run_rows)
  moreover have "Query_messages getMessages reader (run (es @ es') init)
      = Inr (rows (db (run (es @ es') init)))"
    using assms(2) by (simp add: Query_messages_def getMessages_def)
  moreover have "fst (Mutation_addMessage cm (Some u) t s) = Inl (if u = [] then AuthorizationError else e)"
    "pubSub (snd (Mutation_addMessage cm (Some u) t s)) = pubSub s"
    using assms(1) by (auto split: prod.splits sum.splits)
  ultimately show ?thesis by simp
qed

theorem publish_only_after_append_witness:
  "fst (createMessage False ''alice'' ''hello''
         (db \<lparr>db = \<lparr>rows = [], next_id = 1\<rparr>,
              pubSub = [\<lparr>owner = ''bob'', delivered = [], pending = [], waiting = 0\<rparr>]\<rparr>)) = Inl StoreError \<and>
   truthy (Some ''bob'') \<and>
   Mutation_addMessage (createMessage False) (Some ''alice'') ''hello''
       \<lparr>db = \<lparr>rows = [], next_id = 1\<rparr>,
        pubSub = [\<lparr>owner = ''bob'', delivered = [], pending = [], waiting = 0\<rparr>]\<rparr>
     = (Inl StoreError,
        \<lparr>db = \<lparr>rows = [], next_id = 1\<rparr>,
         pubSub = [\<lparr>owner = ''bob'', delivered = [], pending = [], waiting = 0\<rparr>]\<rparr>) \<and>
   (\<exists>ms. Query_messages getMessages (Some ''bob'')
           (run ([Subscribe (Some ''bob''), AddMessage False (Some ''alice'') ''lost'',
                  AddMessage True (Some ''alice'') ''hello''] @ [Next 0]) init) = Inr ms \<and>
         (\<forall>ss \<in> set (pubSub (run [Subscribe (Some ''bob''), AddMessage False (Some ''alice'') ''lost'',
                                  AddMessage True (Some ''alice'') ''hello''] init)).
            set (stream ss) \<subseteq> set ms)) \<and>
   map stream (pubSub (run [Subscribe (Some ''bob''), AddMessage False (Some ''alice'') ''lost'',
                            AddMessage True (Some ''alice'') ''hello''] init))
     = [[\<lparr>msg_id = 1, msg_user = ''alice'', msg_text = ''hello''\<rparr>]]"
proof -
  let ?s = "\<lparr>db = \<lparr>rows = [], next_id = 1\<rparr>,
             pubSub = [\<lparr>owner = ''bob'', delivered = [], pending = [], waiting = 0\<rparr>]\<rparr>"
  let ?es = "[Subscribe (Some ''bob''), AddMessage False (Some ''alice'') ''lost'',
              AddMessage True (Some ''alice'') ''hello'']"
  have f: "fst (createMessage False ''alice'' ''hello'' (db ?s)) = Inl StoreError"
    by (simp add: createMessage_def)
  have r: "truthy (Some ''bob'')" by simp
  have st: "map stream (pubSub (run ?es init))
      = [[\<lparr>msg_id = 1, msg_user = ''alice'', msg_text = ''hello''\<rparr>]]"
    by (simp add: createMessage_def init_def publish_def enqueue_def stream_def Let_def
        Subscription_messageAdded_def asyncIterableIterator_def)
  have a: "Mutation_addMessage (createMessage False) (Some ''alice'') ''hello'' ?s
      = (Inl StoreError, ?s)"
    by (simp add: createMessage_def)
  note c = publish_only_after_append
    [of "createMessage False" "''alice''" "''hello''" ?s StoreError "Some ''bob''" ?es "[Next 0]",
     OF f r]
  show ?thesis
    by (rule conjI f r a st conjunct2 [OF conjunct2 [OF c]])+
qed

text \<open>
  C5. A subscribe by an unauthenticated principal fails with \<open>AuthorizationError\<close> and
  leaves the server state, the registry included, as it was. In every run the registry
  holds exactly one session per subscribe made with a truthy user, and every session in
  it belongs to such a user: only sessions authorized when they subscribed exist to
  receive messages.
\<close>

theorem subscribe_unauthenticated:
  "(\<not> truthy user \<longrightarrow> Subscription_messageAdded user s = (Inl AuthorizationError, s)) \<and>
   length (pubSub (run es init)) = length (filter registers es) \<and>
   (\<forall>ss \<in> set (pubSub (run es init)). truthy (Some (owner ss)))"
  using run_sessions_sound [OF sessions_sound_init, of es]
  by (simp add: Subscription_messageAdded_def run_registers sessions_sound_def init_def)

theorem subscribe_unauthenticated_witness:
  "\<not> truthy None \<and>
   Subscription_messageAdded None init = (Inl AuthorizationError, init) \<and>
   length (pubSub (run [Subscribe None, Subscribe (Some ''bob''),
                        AddMessage True (Some ''alice'') ''hello''] init)) = 1 \<and>
   map owner (pubSub (run [Subscribe None, Subscribe (Some ''bob''),
                           AddMessage True (Some ''alice'') ''hello''] init)) = [''bob''] \<and>
   pubSub (run [Subscribe None, Subscribe (Some ''bob''),
                AddMessage True (Some ''alice'') ''hello''] init) ! 0
     \<in> set (pubSub (run [Subscribe None, Subscribe (Some ''bob''),
                          AddMessage True (Some ''alice'') ''hello''] init)) \<and>
   truthy (Some (owner (pubSub (run [Subscribe None, Subscribe (Some ''bob''),
                                     AddMessage True (Some ''alice'') ''hello''] init) ! 0)))"
proof -
  let ?es = "[Subscribe None, Subscribe (Some ''bob''), AddMessage True (Some ''alice'') ''hello'']"
  have o: "map owner (pubSub (run ?es init)) = [''bob'']"
    by (simp add: createMessage_def init_def publish_def enqueue_def Let_def
        Subscription_messageAdded_def asyncIterableIterator_def)
  have n: "length (filter registers ?es) = 1" by simp
  note c = subscribe_unauthenticated [of None init ?es]
  have a: "\<not> truthy None" by simp
  from c a have c1: "Subscription_messageAdded None init = (Inl AuthorizationError, init)"
    by blast
  from c n have c2: "length (pubSub (run ?es init)) = 1"
    by (simp only:)
  from c2 have mem: "pubSub (run ?es init) ! 0 \<in> set (pubSub (run ?es init))"
    by (simp only: nth_mem)
  from c mem have own: "truthy (Some (owner (pubSub (run ?es init) ! 0)))"
    by blast
  show ?thesis
    by (rule conjI a c1 c2 o mem own)+
qed

text \<open>
  C6. Take any run in which writes may be in flight (a resolver waits at its \<^verbatim>\<open>await\<close>
  while other requests are served, and the waiting resolvers resume in the order the
  store acknowledged their writes), and a session subscribed at any point of it. In
  every continuation, what the session yields to its transport, read off the replies
  to its pulls and off the publishes that resume a suspended pull, is exactly the first
  \<open>n\<close> of the messages published after it subscribed, in their order, where \<open>n\<close> is the
  number of pulls made (or all of them when fewer were published). The published
  messages are strictly increasing in \<open>id\<close> and pairwise different. So of two messages
  published after the subscribe, the one with the smaller \<open>id\<close> is yielded first, each
  is yielded at most once, and each is yielded as soon as a pull asks for it. The
  session's record agrees: \<open>delivered\<close> is what it yielded, and \<open>delivered\<close> followed
  by the queue is what was published. Runs that handle one request at a time are the
  special case in which each resolver resumes at once (\<open>arun_expand\<close>).
\<close>

theorem stream_in_creation_order:
  assumes "arun ts0 (init, []) = (s0, q1)"
    and "Subscription_messageAdded user s0 = (Inr k, s1)"
  shows "ayields k ts (s1, q1) = take (apulls k ts) (published ts (s1, q1)) \<and>
         sorted_wrt by_id (published ts (s1, q1)) \<and>
         distinct (published ts (s1, q1)) \<and>
         sorted_wrt by_id (ayields k ts (s1, q1)) \<and>
         distinct (ayields k ts (s1, q1)) \<and>
         delivered (pubSub (fst (arun ts (s1, q1))) ! k) = ayields k ts (s1, q1) \<and>
         stream (pubSub (fst (arun ts (s1, q1))) ! k) = published ts (s1, q1)"
proof -
  note sub = subscribe_result [OF assms(2)]
  have k: "k < length (pubSub (fst (s1, q1)))" using sub(1) by simp
  have "tracks (pubSub (fst (s1, q1)) ! k) [] 0" using sub(3) by simp
  from arun_tracks [OF k this, of ts]
  have tr: "tracks (pubSub (fst (arun ts (s1, q1))) ! k) (published ts (s1, q1)) (apulls k ts)"
    by simp
  have del: "delivered (pubSub (fst (arun ts (s1, q1))) ! k) = ayields k ts (s1, q1)"
    using arun_delivered [OF k, of ts] sub(4) by simp
  with tr have y: "ayields k ts (s1, q1) = take (apulls k ts) (published ts (s1, q1))"
    by (simp add: tracks_def)
  have "inflight_ok (s0, q1)"
    using arun_inflight_ok [OF inflight_ok_init, of ts0] assms(1) by simp
  then have "inflight_ok (s1, q1)" using sub(2) by (simp add: inflight_ok_def)
  then have srt: "sorted_wrt by_id (published ts (s1, q1))"
    using published_sorted by blast
  then have dist: "distinct (published ts (s1, q1))" by (rule by_id_distinct)
  have "sorted_wrt by_id (take (apulls k ts) (published ts (s1, q1)))"
    using srt by (rule sorted_wrt_take)
  moreover have "distinct (take (apulls k ts) (published ts (s1, q1)))"
    using dist by (rule distinct_take)
  ultimately show ?thesis
    using y srt dist del tracks_stream [OF tr] by simp
qed

theorem stream_in_creation_order_witness:
  "arun [Request (AddMessage True (Some ''alice'') ''one'')] (init, [])
     = (\<lparr>db = \<lparr>rows = [\<lparr>msg_id = 1, msg_user = ''alice'', msg_text = ''one''\<rparr>], next_id = 2\<rparr>,
         pubSub = []\<rparr>,
        [\<lparr>msg_id = 1, msg_user = ''alice'', msg_text = ''one''\<rparr>]) \<and>
   Subscription_messageAdded (Some ''bob'')
       \<lparr>db = \<lparr>rows = [\<lparr>msg_id = 1, msg_user = ''alice'', msg_text = ''one''\<rparr>], next_id = 2\<rparr>,
        pubSub = []\<rparr>
     = (Inr 0,
        \<lparr>db = \<lparr>rows = [\<lparr>msg_id = 1, msg_user = ''alice'', msg_text = ''one''\<rparr>], next_id = 2\<rparr>,
         pubSub = [\<lparr>owner = ''bob'', delivered = [], pending = [], waiting = 0\<rparr>]\<rparr>) \<and>
   published [Request (Next 0), Request (AddMessage True (Some ''carol'') ''two''), Resume,
              Resume, Request (Next 0), Request (Next 0)]
       (\<lparr>db = \<lparr>rows = [\<lparr>msg_id = 1, msg_user = ''alice'', msg_text = ''one''\<rparr>], next_id = 2\<rparr>,
         pubSub = [\<lparr>owner = ''bob'', delivered = [], pending = [], waiting = 0\<rparr>]\<rparr>,
        [\<lparr>msg_id = 1, msg_user = ''alice'', msg_text = ''one''\<rparr>])
     = [\<lparr>msg_id = 1, msg_user = ''alice'', msg_text = ''one''\<rparr>,
        \<lparr>msg_id = 2, msg_user = ''carol'', msg_text = ''two''\<rparr>] \<and>
   apulls 0 [Request (Next 0), Request (AddMessage True (Some ''carol'') ''two''), Resume,
             Resume, Request (Next 0), Request (Next 0)] = 3 \<and>
   ayields 0 [Request (Next 0), Request (AddMessage True (Some ''carol'') ''two''), Resume,
              Resume, Request (Next 0), Request (Next 0)]
       (\<lparr>db = \<lparr>rows = [\<lparr>msg_id = 1, msg_user = ''alice'', msg_text = ''one''\<rparr>], next_id = 2\<rparr>,
         pubSub = [\<lparr>owner = ''bob'', delivered = [], pending = [], waiting = 0\<rparr>]\<rparr>,
        [\<lparr>msg_id = 1, msg_user = ''alice'', msg_text = ''one''\<rparr>])
     = [\<lparr>msg_id = 1, msg_user = ''alice'', msg_text = ''one''\<rparr>,
        \<lparr>msg_id = 2, msg_user = ''carol'', msg_text = ''two''\<rparr>] \<and>
   ayields 0 [Request (Next 0), Request (AddMessage True (Some ''carol'') ''two''), Resume,
              Resume, Request (Next 0), Request (Next 0)]
       (\<lparr>db = \<lparr>rows = [\<lparr>msg_id = 1, msg_user = ''alice'', msg_text = ''one''\<rparr>], next_id = 2\<rparr>,
         pubSub = [\<lparr>owner = ''bob'', delivered = [], pending = [], waiting = 0\<rparr>]\<rparr>,
        [\<lparr>msg_id = 1, msg_user = ''alice'', msg_text = ''one''\<rparr>])
     = take (apulls 0 [Request (Next 0), Request (AddMessage True (Some ''carol'') ''two''),
                       Resume, Resume, Request (Next 0), Request (Next 0)])
         (published [Request (Next 0), Request (AddMessage True (Some ''carol'') ''two''), Resume,
                     Resume, Request (Next 0), Request (Next 0)]
           (\<lparr>db = \<lparr>rows = [\<lparr>msg_id = 1, msg_user = ''alice'', msg_text = ''one''\<rparr>], next_id = 2\<rparr>,
             pubSub = [\<lparr>owner = ''bob'', delivered = [], pending = [], waiting = 0\<rparr>]\<rparr>,
            [\<lparr>msg_id = 1, msg_user = ''alice'', msg_text = ''one''\<rparr>]))"
proof -
  let ?one = "\<lparr>msg_id = 1, msg_user = ''alice'', msg_text = ''one''\<rparr>"
  let ?base = "\<lparr>db = \<lparr>rows = [?one], next_id = 2\<rparr>, pubSub = []\<rparr>"
  let ?sub = "\<lparr>db = \<lparr>rows = [?one], next_id = 2\<rparr>,
              pubSub = [\<lparr>owner = ''bob'', delivered = [], pending = [], waiting = 0\<rparr>]\<rparr>"
  let ?ts = "[Request (Next 0), Request (AddMessage True (Some ''carol'') ''two''), Resume,
              Resume, Request (Next 0), Request (Next 0)]"
  have h1: "arun [Request (AddMessage True (Some ''alice'') ''one'')] (init, []) = (?base, [?one])"
    by (simp add: addMessage_start_def createMessage_def init_def Let_def)
  have h2: "Subscription_messageAdded (Some ''bob'') ?base = (Inr 0, ?sub)"
    by (simp add: Subscription_messageAdded_def asyncIterableIterator_def)
  have p: "published ?ts (?sub, [?one])
      = [?one, \<lparr>msg_id = 2, msg_user = ''carol'', msg_text = ''two''\<rparr>]"
    by (simp add: published_def addMessage_start_def addMessage_resume_def createMessage_def
        publish_def enqueue_def nextMessage_def resumed_def Let_def)
  have n: "apulls 0 ?ts = 3" by (simp add: apulls_def)
  have y: "ayields 0 ?ts (?sub, [?one])
      = [?one, \<lparr>msg_id = 2, msg_user = ''carol'', msg_text = ''two''\<rparr>]"
    by (simp add: ayields_def addMessage_start_def addMessage_resume_def createMessage_def
        publish_def enqueue_def nextMessage_def resumed_def Let_def)
  note c = stream_in_creation_order [OF h1 h2, of ?ts]
  show ?thesis
    by (rule conjI h1 h2 p n y conjunct1 [OF c])+
qed

text \<open>
  C7. A message created before a session subscribed is never in that session's stream,
  however the run continues: the session never yields it, in reply to a pull or by a
  resumed pull, and it is neither in its record of yielded messages nor in its queue.
  \<open>listMessages\<close> for an authenticated principal goes on returning it.
\<close>

theorem no_backfill:
  assumes "m \<in> set (created es0 init)"
    and "Subscription_messageAdded user (run es0 init) = (Inr k, s1)"
    and "truthy reader"
  shows "m \<notin> set (stream (pubSub (run es s1) ! k)) \<and>
         (\<exists>ms. Query_messages getMessages reader (run es s1) = Inr ms \<and> m \<in> set ms) \<and>
         m \<notin> set (yields k es s1)"
proof -
  note sub = subscribe_result [OF assms(2)]
  from run_tracks [OF sub(1) sub(3), of es]
  have tr: "tracks (pubSub (run es s1) ! k) (created es s1) (pulls k es)" by simp
  then have eq: "stream (pubSub (run es s1) ! k) = created es s1" by (rule tracks_stream)
  have "delivered (pubSub (run es s1) ! k) = yields k es s1"
    using run_delivered [OF sub(1), of es] sub(4) by simp
  with tr have y: "yields k es s1 = take (pulls k es) (created es s1)"
    by (simp add: tracks_def)
  have rows1: "rows (db s1) = created es0 init"
    using sub(2) by (simp add: run_rows init_def)
  have "store_ok (db s1)" using sub(2) reachable_store_ok [of es0] by simp
  then have "store_ok (db (run es s1))" by (rule run_store_ok)
  then have "sorted_wrt by_id (created es0 init @ created es s1)"
    by (simp add: store_ok_def run_rows rows1)
  then have "distinct (created es0 init @ created es s1)"
    by (rule by_id_distinct)
  with assms(1) have no: "m \<notin> set (created es s1)" by auto
  then have "m \<notin> set (take (pulls k es) (created es s1))"
    using set_take_subset [of "pulls k es" "created es s1"] by blast
  moreover have "Query_messages getMessages reader (run es s1) = Inr (created es0 init @ created es s1)"
    using assms(3) by (simp add: Query_messages_def getMessages_def run_rows rows1)
  ultimately show ?thesis using eq y no assms(1) by simp
qed

theorem no_backfill_witness:
  "\<lparr>msg_id = 1, msg_user = ''alice'', msg_text = ''hello''\<rparr>
     \<in> set (created [AddMessage True (Some ''alice'') ''hello''] init) \<and>
   Subscription_messageAdded (Some ''bob'') (run [AddMessage True (Some ''alice'') ''hello''] init)
     = (Inr 0,
        \<lparr>db = \<lparr>rows = [\<lparr>msg_id = 1, msg_user = ''alice'', msg_text = ''hello''\<rparr>], next_id = 2\<rparr>,
         pubSub = [\<lparr>owner = ''bob'', delivered = [], pending = [], waiting = 0\<rparr>]\<rparr>) \<and>
   truthy (Some ''bob'') \<and>
   yields 0 [Next 0, AddMessage True (Some ''alice'') ''again'', Next 0]
       \<lparr>db = \<lparr>rows = [\<lparr>msg_id = 1, msg_user = ''alice'', msg_text = ''hello''\<rparr>], next_id = 2\<rparr>,
        pubSub = [\<lparr>owner = ''bob'', delivered = [], pending = [], waiting = 0\<rparr>]\<rparr>
     = [\<lparr>msg_id = 2, msg_user = ''alice'', msg_text = ''again''\<rparr>] \<and>
   stream (pubSub (run [Next 0, AddMessage True (Some ''alice'') ''again'', Next 0]
       \<lparr>db = \<lparr>rows = [\<lparr>msg_id = 1, msg_user = ''alice'', msg_text = ''hello''\<rparr>], next_id = 2\<rparr>,
        pubSub = [\<lparr>owner = ''bob'', delivered = [], pending = [], waiting = 0\<rparr>]\<rparr>) ! 0)
     = [\<lparr>msg_id = 2, msg_user = ''alice'', msg_text = ''again''\<rparr>] \<and>
   \<lparr>msg_id = 1, msg_user = ''alice'', msg_text = ''hello''\<rparr>
     \<notin> set (stream (pubSub (run [Next 0, AddMessage True (Some ''alice'') ''again'', Next 0]
       \<lparr>db = \<lparr>rows = [\<lparr>msg_id = 1, msg_user = ''alice'', msg_text = ''hello''\<rparr>], next_id = 2\<rparr>,
        pubSub = [\<lparr>owner = ''bob'', delivered = [], pending = [], waiting = 0\<rparr>]\<rparr>) ! 0)) \<and>
   (\<exists>ms. Query_messages getMessages (Some ''bob'')
       (run [Next 0, AddMessage True (Some ''alice'') ''again'', Next 0]
         \<lparr>db = \<lparr>rows = [\<lparr>msg_id = 1, msg_user = ''alice'', msg_text = ''hello''\<rparr>], next_id = 2\<rparr>,
          pubSub = [\<lparr>owner = ''bob'', delivered = [], pending = [], waiting = 0\<rparr>]\<rparr>) = Inr ms \<and>
       \<lparr>msg_id = 1, msg_user = ''alice'', msg_text = ''hello''\<rparr> \<in> set ms) \<and>
   \<lparr>msg_id = 1, msg_user = ''alice'', msg_text = ''hello''\<rparr>
     \<notin> set (yields 0 [Next 0, AddMessage True (Some ''alice'') ''again'', Next 0]
       \<lparr>db = \<lparr>rows = [\<lparr>msg_id = 1, msg_user = ''alice'', msg_text = ''hello''\<rparr>], next_id = 2\<rparr>,
        pubSub = [\<lparr>owner = ''bob'', delivered = [], pending = [], waiting = 0\<rparr>]\<rparr>)"
proof -
  let ?m = "\<lparr>msg_id = 1, msg_user = ''alice'', msg_text = ''hello''\<rparr>"
  let ?sub = "\<lparr>db = \<lparr>rows = [?m], next_id = 2\<rparr>,
              pubSub = [\<lparr>owner = ''bob'', delivered = [], pending = [], waiting = 0\<rparr>]\<rparr>"
  let ?before = "[AddMessage True (Some ''alice'') ''hello'']"
  let ?es = "[Next 0, AddMessage True (Some ''alice'') ''again'', Next 0]"
  have h1: "?m \<in> set (created ?before init)"
    by (simp add: created_def createMessage_def init_def Let_def)
  have h2: "Subscription_messageAdded (Some ''bob'') (run ?before init) = (Inr 0, ?sub)"
    by (simp add: Subscription_messageAdded_def asyncIterableIterator_def init_def
        createMessage_def publish_def Let_def)
  have h3: "truthy (Some ''bob'')" by simp
  have y: "yields 0 ?es ?sub = [\<lparr>msg_id = 2, msg_user = ''alice'', msg_text = ''again''\<rparr>]"
    by (simp add: yields_def createMessage_def publish_def enqueue_def nextMessage_def
        resumed_def Let_def)
  have v: "stream (pubSub (run ?es ?sub) ! 0)
      = [\<lparr>msg_id = 2, msg_user = ''alice'', msg_text = ''again''\<rparr>]"
    by (simp add: createMessage_def publish_def enqueue_def nextMessage_def stream_def Let_def)
  note c = no_backfill [OF h1 h2 h3, of ?es]
  show ?thesis
    by (rule conjI h1 h2 h3 y v conjunct1 [OF c] conjunct1 [OF conjunct2 [OF c]]
        conjunct2 [OF conjunct2 [OF c]])+
qed

section \<open>Properties of the client hook\<close>

text \<open>
  C8. \<open>useMessages\<close> returns the empty list while the cache holds no result of the
  messages query, and the cached list once a result is there. (A result whose list is
  null or missing also gives the empty list.)
\<close>

theorem useMessages_result:
  "useMessages None = [] \<and>
   useMessages (Some \<lparr>messages = Value ms\<rparr>) = ms \<and>
   useMessages (Some \<lparr>messages = Null\<rparr>) = [] \<and>
   useMessages (Some \<lparr>messages = Undefined\<rparr>) = []"
  by (simp add: useMessages_def useQuery_def)

text \<open>
  C9. On a subscription event the handler writes the cached list with the event's
  message added at its end, whatever the list holds already: the list is one longer and
  the message occurs once more than before, so a message already in the list is there
  twice.
\<close>

theorem onData_appends:
  "onData \<lparr>data = Value \<lparr>message = m\<rparr>\<rparr> (Some \<lparr>messages = Value ms\<rparr>)
     = Inr (Some \<lparr>messages = Value (ms @ [m])\<rparr>) \<and>
   length (useMessages (Some \<lparr>messages = Value (ms @ [m])\<rparr>))
     = Suc (length (useMessages (Some \<lparr>messages = Value ms\<rparr>))) \<and>
   count_list (useMessages (Some \<lparr>messages = Value (ms @ [m])\<rparr>)) m
     = Suc (count_list (useMessages (Some \<lparr>messages = Value ms\<rparr>)) m)"
  by (simp add: onData_def updateQuery_def readQuery_def update_messages_def
      useMessages_def useQuery_def)

text \<open>
  C10. With no result of the messages query in the cache, the update function is handed
  \<^verbatim>\<open>null\<close> and reading \<^verbatim>\<open>oldData.messages\<close> raises: every event ends in a TypeError.
  (With a cached list the handler succeeds, as shown for C9.)
\<close>

theorem onData_without_cached_query:
  "update_messages m (readQuery None) = Inl TypeError \<and> onData r None = Inl TypeError"
  by (cases "data r") (simp_all add: onData_def updateQuery_def readQuery_def update_messages_def)

end

